theory Spec2Isabelle
  imports Main "HOL-Library.Word" "HOL-Library.Sublist"
    "HOL-Library.List_Lexorder" "HOL-Library.Product_Lexorder"
begin

section \<open>Basic types\<close>

text \<open>
  A Python \<open>str\<close> is a sequence of Unicode code points, a \<open>bytes\<close> object a sequence of
  octets. ASCII literals of the source are written with \<open>u\<close>.
\<close>

type_synonym str = "nat list"
type_synonym bytes = "8 word list"

definition u :: "string \<Rightarrow> str" where
  "u s = map of_char s"

section \<open>Binary detection\<close>

text \<open>
  \<^verbatim>\<open>text_chars = bytearray({7,8,9,10,12,13,27} | set(range(0x20, 0x100)))\<close>
\<close>

definition text_chars :: "8 word \<Rightarrow> bool" where
  "text_chars b \<longleftrightarrow> b \<in> {7, 8, 9, 10, 12, 13, 27} \<or> (0x20 \<le> b \<and> b \<le> 0xFF)"

text \<open>
  \<^verbatim>\<open>sample.translate(None, text_chars)\<close> deletes every byte of \<open>text_chars\<close>.

  The source compares \<open>len(nontext) > len(sample) * 0.30\<close> in double precision. The double
  nearest to 0.30 is below 3/10 by a relative error under \<open>2^-54\<close>, so for a multiple of ten
  the product rounds to the integer \<open>3n/10\<close>, and for any other length below \<open>2^53\<close> the
  exact product is at least 1/10 away from every integer: the comparison of the integer
  \<open>len(nontext)\<close> with the product decides as \<open>10 * len(nontext) > 3 * len(sample)\<close>.
\<close>

definition detect_binary :: "bytes \<Rightarrow> bool" where
  "detect_binary sample =
     (if 0 \<in> set sample then True
      else let nontext = filter (\<lambda>b. \<not> text_chars b) sample
           in 10 * length nontext > 3 * length sample)"

text \<open>The allow-list as the specification words it: tab, newline, form feed, carriage
  return, escape and the range 0x20 to 0xFF.\<close>

definition spec_allow_list :: "8 word \<Rightarrow> bool" where
  "spec_allow_list b \<longleftrightarrow> b \<in> {9, 10, 12, 13, 27} \<or> (0x20 \<le> b \<and> b \<le> 0xFF)"

definition spec_sniff :: "bytes \<Rightarrow> bool" where
  "spec_sniff sample \<longleftrightarrow>
     0 \<in> set sample \<or>
     10 * length (filter (\<lambda>b. \<not> spec_allow_list b) sample) > 3 * length sample"

section \<open>Paths\<close>

text \<open>
  A \<open>pathlib.Path\<close> on a POSIX system: the anchor (\<open>/\<close> for an absolute path, empty for a
  relative one) and the names below it. \<open>Path.parts\<close> is the anchor followed by the names,
  \<open>Path.parent\<close> drops the last name and leaves a path without names as it is (the
  filesystem root is its own parent), \<open>==\<close> compares anchor and names.
  \<open>child\<close> is the operator \<open>/\<close> with a single name, as \<open>iterdir\<close> applies it.
\<close>

record path =
  anchor :: str
  names :: "str list"

datatype error = ValueError | OSError

definition parts :: "path \<Rightarrow> str list" where
  "parts p = (if anchor p = [] then [] else [anchor p]) @ names p"

definition path_name :: "path \<Rightarrow> str" where
  "path_name p = (if names p = [] then [] else last (names p))"

definition parent :: "path \<Rightarrow> path" where
  "parent p = p\<lparr>names := butlast (names p)\<rparr>"

definition child :: "path \<Rightarrow> str \<Rightarrow> path" where
  "child p n = p\<lparr>names := names p @ [n]\<rparr>"

text \<open>\<open>path.relative_to(other).parts\<close>; \<open>ValueError\<close> when \<open>path\<close> is not below \<open>other\<close>.\<close>

definition relative_to :: "path \<Rightarrow> path \<Rightarrow> error + str list" where
  "relative_to p other =
     (if anchor p = anchor other \<and> prefix (names other) (names p)
      then Inr (drop (length (names other)) (names p))
      else Inl ValueError)"

fun join :: "str \<Rightarrow> str list \<Rightarrow> str" where
  "join sep [] = []"
| "join sep [x] = x"
| "join sep (x # y # ys) = x @ sep @ join sep (y # ys)"

text \<open>\<open>str(Path(*xs))\<close> for names \<open>xs\<close>: the path without names prints as a single dot.\<close>

definition str_of_relative :: "str list \<Rightarrow> str" where
  "str_of_relative xs = (if xs = [] then u ''.'' else join (u ''/'') xs)"

definition replace_char :: "nat \<Rightarrow> nat \<Rightarrow> str \<Rightarrow> str" where
  "replace_char old new s = map (\<lambda>c. if c = old then new else c) s"

section \<open>Glob matching\<close>

text \<open>
  \<open>fnmatch.fnmatchcase\<close> of the Python standard library (CPython 3.9 and later), following
  \<open>fnmatch.translate\<close>: \<open>*\<close> (42) matches everything, \<open>?\<close> (63) any single character, a
  \<open>[\<close> (91) that is never closed is literal, every other character matches itself, and the
  whole name has to match. For a bracket expression \<open>translate\<close> cuts the text between the
  brackets into chunks at the hyphens (45) that stand for ranges (not the first character, not
  the one after a leading \<open>!\<close> (33), and not within two characters after another range hyphen;
  a hyphen that ends the text is literal), removes from right to left every range whose lower
  end is above its upper end by joining the two chunks without those ends, and joins the chunks
  with hyphens again. If the result starts with \<open>!\<close>, also when only the removal of a range
  brought it to the front, the class is negated. In the class every character of a chunk is
  literal, and the last character of a chunk with the first of the next is a range; a hyphen
  that stands first in the class is literal.
\<close>

datatype item = CharSingle nat | CharRange nat nat
datatype tok = Star | AnyChar | Class bool "item list" | Lit nat

fun split_chunks :: "nat \<Rightarrow> str \<Rightarrow> str \<Rightarrow> str list" where
  "split_chunks skip acc [] = [acc]"
| "split_chunks skip acc (c # cs) =
     (if skip = 0 \<and> c = 45
      then (if cs = [] then [acc @ [45]] else acc # split_chunks 2 [] cs)
      else split_chunks (skip - 1) (acc @ [c]) cs)"

fun drop_empty_ranges :: "str list \<Rightarrow> str list" where
  "drop_empty_ranges [] = []"
| "drop_empty_ranges (c # cs) =
     (case drop_empty_ranges cs of
        [] \<Rightarrow> [c]
      | d # ds \<Rightarrow>
          if c \<noteq> [] \<and> d \<noteq> [] \<and> last c > hd d then (butlast c @ tl d) # ds
          else c # d # ds)"

text \<open>The members of the class for the chunk \<open>c\<close> followed by the chunks \<open>rest\<close>. (A chunk
  that follows a range hyphen is never empty; the equation for it only keeps the function total.)\<close>

fun chunk_items :: "str \<Rightarrow> str list \<Rightarrow> item list" where
  "chunk_items c [] = map CharSingle c"
| "chunk_items c (d # rest) =
     (if c = [] then CharSingle 45 # chunk_items d rest
      else (case d of
              [] \<Rightarrow> map CharSingle c @ chunk_items [] rest
            | x # d' \<Rightarrow> map CharSingle (butlast c) @ CharRange (last c) x # chunk_items d' rest))"

definition class_tok :: "str \<Rightarrow> tok" where
  "class_tok stuff =
     (case drop_empty_ranges
             (split_chunks (case stuff of c # r \<Rightarrow> if c = 33 then 2 else 1 | [] \<Rightarrow> 1) [] stuff) of
        [] \<Rightarrow> Class False []
      | c # rest \<Rightarrow>
          if c \<noteq> [] \<and> hd c = 33 then Class True (chunk_items (tl c) rest)
          else Class False (chunk_items c rest))"

definition bracket_body :: "str \<Rightarrow> (str \<times> str) option" where
  "bracket_body s =
     (let (neg, s1) = (case s of c # r \<Rightarrow> if c = 33 then ([c], r) else ([], s) | [] \<Rightarrow> ([], s));
          (fst_close, s2) = (case s1 of c # r \<Rightarrow> if c = 93 then ([c], r) else ([], s1) | [] \<Rightarrow> ([], s1));
          body = takeWhile (\<lambda>c. c \<noteq> 93) s2;
          after = dropWhile (\<lambda>c. c \<noteq> 93) s2
      in if after = [] then None else Some (neg @ fst_close @ body, tl after))"

lemma bracket_body_length:
  assumes "bracket_body s = Some (stuff, rest)"
  shows "length rest < Suc (length s)"
proof -
  define s1 where "s1 = (case s of c # r \<Rightarrow> if c = 33 then r else s | [] \<Rightarrow> s)"
  define s2 where "s2 = (case s1 of c # r \<Rightarrow> if c = 93 then r else s1 | [] \<Rightarrow> s1)"
  have l1: "length s1 \<le> length s"
    by (simp add: s1_def split: list.splits)
  have l2: "length s2 \<le> length s1"
    by (simp add: s2_def split: list.splits)
  have "rest = tl (dropWhile (\<lambda>c. c \<noteq> 93) s2)"
    using assms
    by (auto simp: bracket_body_def s1_def s2_def Let_def split: list.splits if_splits)
  moreover have "length (tl (dropWhile (\<lambda>c. c \<noteq> 93) s2)) \<le> length s2"
    using length_dropWhile_le [of "\<lambda>c. c \<noteq> 93" s2] by simp
  ultimately show ?thesis
    using l1 l2 by simp
qed

function translate :: "str \<Rightarrow> tok list" where
  "translate [] = []"
| "translate (c # pat) =
     (if c = 42 then Star # translate pat
      else if c = 63 then AnyChar # translate pat
      else if c = 91 then
        (case bracket_body pat of
           None \<Rightarrow> Lit 91 # translate pat
         | Some (stuff, rest) \<Rightarrow> class_tok stuff # translate rest)
      else Lit c # translate pat)"
  by pat_completeness auto
termination
  by (relation "measure length") (auto dest: bracket_body_length)

fun item_ok :: "item \<Rightarrow> nat \<Rightarrow> bool" where
  "item_ok (CharSingle x) c = (c = x)"
| "item_ok (CharRange lo hi) c = (lo \<le> c \<and> c \<le> hi)"

fun tok_ok :: "tok \<Rightarrow> nat \<Rightarrow> bool" where
  "tok_ok Star c = True"
| "tok_ok AnyChar c = True"
| "tok_ok (Class neg items) c = (list_ex (\<lambda>i. item_ok i c) items \<noteq> neg)"
| "tok_ok (Lit x) c = (c = x)"

fun glob_match :: "tok list \<Rightarrow> str \<Rightarrow> bool" where
  "glob_match [] s = (s = [])"
| "glob_match (Star # ts) [] = glob_match ts []"
| "glob_match (Star # ts) (c # s) = (glob_match ts (c # s) \<or> glob_match (Star # ts) s)"
| "glob_match (t # ts) [] = False"
| "glob_match (t # ts) (c # s) = (tok_ok t c \<and> glob_match ts s)"

definition fnmatchcase :: "str \<Rightarrow> str \<Rightarrow> bool" where
  "fnmatchcase name pat = glob_match (translate pat) name"

section \<open>Configuration\<close>

text \<open>
  The module-level settings of \<open>app.py\<close>, read from the environment once at start-up. The last
  field is not a setting: it stands for \<open>str.lower\<close> of the interpreter, whose table of cased
  letters lies outside the repository. The definitions and theorems below take whatever this
  function is; \<open>ascii_lower\<close> is the function that agrees with \<open>str.lower\<close> on ASCII strings.
\<close>

record config =
  ROOT :: path
  EXCLUDES :: "str list"
  INCLUDE_HIDDEN :: bool
  MAX_BYTES :: int
  READ_BINARY :: bool
  ICON_SELECTED :: str
  ICON_UNSELECTED :: str
  str_lower :: "str \<Rightarrow> str"

definition ascii_lower :: "str \<Rightarrow> str" where
  "ascii_lower s = map (\<lambda>c. if 65 \<le> c \<and> c \<le> 90 then c + 32 else c) s"

section \<open>Path filter\<close>

text \<open>
  The candidate set of \<open>path_matches_excludes\<close> at prefix length \<open>i\<close>: the last segment of
  \<open>parts[:i]\<close>, if there is one, and \<open>str(Path(*parts[:i]))\<close> with backslashes (92) turned into
  slashes (47), if it is not empty. The source collects them in a set; only membership is used.
\<close>

definition candidates :: "str list \<Rightarrow> nat \<Rightarrow> str list" where
  "candidates ps i =
     (let sub = take i ps;
          segs = (if sub = [] then [] else [last sub]);
          rel_posix = replace_char 92 47 (str_of_relative sub)
      in (if segs \<noteq> [] then [hd segs] else []) @ (if rel_posix \<noteq> [] then [rel_posix] else []))"

text \<open>
  The loops of \<open>path_matches_excludes\<close> return \<open>True\<close> at the first match and have no other
  effect: the result is whether some prefix length, pattern and non-empty candidate match.
\<close>

definition path_matches_excludes :: "config \<Rightarrow> path \<Rightarrow> error + bool" where
  "path_matches_excludes cfg p =
     (case (if p \<noteq> ROOT cfg then relative_to p (ROOT cfg) else Inr []) of
        Inl e \<Rightarrow> Inl e
      | Inr ps \<Rightarrow>
          Inr (list_ex (\<lambda>i. list_ex (\<lambda>pat.
                 list_ex (\<lambda>c. fnmatchcase c pat) (filter (\<lambda>c. c \<noteq> []) (candidates ps i)))
               (EXCLUDES cfg)) [0..<length ps + 1]))"

definition startswith :: "str \<Rightarrow> str \<Rightarrow> bool" where
  "startswith s pre = prefix pre s"

definition is_hidden :: "path \<Rightarrow> bool" where
  "is_hidden p =
     list_ex (\<lambda>part. startswith part (u ''.'')) (filter (\<lambda>part. part \<noteq> u ''.'') (parts p))"

definition should_skip :: "config \<Rightarrow> path \<Rightarrow> error + bool" where
  "should_skip cfg p =
     (if \<not> INCLUDE_HIDDEN cfg \<and> is_hidden p then Inr True
      else if p \<noteq> ROOT cfg then
        (case path_matches_excludes cfg p of
           Inl e \<Rightarrow> Inl e
         | Inr b \<Rightarrow> if b then Inr True else Inr False)
      else Inr False)"

text \<open>
  The same predicate as the specification words it: hidden when some component starts with a
  dot; excluded when \<open>p\<close> or an ancestor of \<open>p\<close> below the root matches a pattern by its last
  segment or by its root-relative slash-separated subpath.
\<close>

definition spec_is_hidden :: "path \<Rightarrow> bool" where
  "spec_is_hidden p = list_ex (\<lambda>part. startswith part (u ''.'')) (parts p)"

definition spec_excluded :: "config \<Rightarrow> path \<Rightarrow> bool" where
  "spec_excluded cfg p =
     (case relative_to p (ROOT cfg) of
        Inl e \<Rightarrow> False
      | Inr rel \<Rightarrow>
          list_ex (\<lambda>i. list_ex (\<lambda>pat.
               fnmatchcase (last (take i rel)) pat \<or> fnmatchcase (join (u ''/'') (take i rel)) pat)
             (EXCLUDES cfg)) [1..<length rel + 1])"

definition spec_should_skip :: "config \<Rightarrow> path \<Rightarrow> bool" where
  "spec_should_skip cfg p \<longleftrightarrow>
     (\<not> INCLUDE_HIDDEN cfg \<and> spec_is_hidden p) \<or> (p \<noteq> ROOT cfg \<and> spec_excluded cfg p)"

section \<open>The node tree and the path index\<close>

text \<open>
  \<open>NodeData\<close> is the record of the source. The tree widget is a finite tree of nodes, each
  with its data and its children in order; a reference to a node is its address, the child
  indices on the way from the root node (the root has address \<open>[]\<close>, the parent of a node
  the address without its last index). \<open>node_index\<close> is the dictionary from paths to nodes.
  Labels, expansion flags and the cursor belong to the display and are left out.
\<close>

record node_data =
  path :: path
  selected :: bool
  is_dir :: bool

datatype tree_node = TreeNode (data: node_data) (children: "tree_node list")

fun node_at :: "tree_node \<Rightarrow> nat list \<Rightarrow> tree_node option" where
  "node_at t [] = Some t"
| "node_at t (i # a) = (if i < length (children t) then node_at (children t ! i) a else None)"

fun update_at :: "tree_node \<Rightarrow> nat list \<Rightarrow> (tree_node \<Rightarrow> tree_node) \<Rightarrow> tree_node" where
  "update_at t [] f = f t"
| "update_at t (i # a) f =
     (if i < length (children t)
      then TreeNode (data t) ((children t)[i := update_at (children t ! i) a f])
      else t)"

record app =
  file_tree :: tree_node
  node_index :: "path \<rightharpoonup> nat list"

definition find_node_by_path :: "app \<Rightarrow> path \<Rightarrow> tree_node option" where
  "find_node_by_path ap p =
     (case node_index ap p of None \<Rightarrow> None | Some a \<Rightarrow> node_at (file_tree ap) a)"

text \<open>
  The loop of \<open>is_selected_effective\<close> has no bound: it leaves at a path with a node or at
  \<open>ROOT\<close>, and goes on with the parent otherwise. Not returning is the value \<open>None\<close>.
\<close>

partial_function (option) is_selected_effective :: "config \<Rightarrow> app \<Rightarrow> path \<Rightarrow> bool option" where
  "is_selected_effective cfg ap cur =
     (case find_node_by_path ap cur of
        Some node \<Rightarrow> Some (selected (data node))
      | None \<Rightarrow> if cur = ROOT cfg then Some True
                else is_selected_effective cfg ap (parent cur))"

text \<open>\<open>set_node_selected\<close> writes the flag of the node and of every loaded node below it; the
  result is the subtree that replaces the node.\<close>

fun set_node_selected :: "tree_node \<Rightarrow> bool \<Rightarrow> tree_node" where
  "set_node_selected (TreeNode d cs) sel =
     TreeNode (d\<lparr>selected := sel\<rparr>) (map (\<lambda>c. set_node_selected c sel) cs)"

definition set_own_selected :: "bool \<Rightarrow> tree_node \<Rightarrow> tree_node" where
  "set_own_selected v n = TreeNode ((data n)\<lparr>selected := v\<rparr>) (children n)"

text \<open>
  \<open>update_parent_selection\<close>: \<open>cur\<close> is the address of the current node and \<open>t\<close> the whole
  tree; the loop ends at the root (\<open>cur.parent is None\<close>) or at the first parent whose
  children are mixed.
\<close>

function update_parent_selection :: "tree_node \<Rightarrow> nat list \<Rightarrow> tree_node" where
  "update_parent_selection t cur =
     (if cur = [] then t
      else
        (case node_at t (butlast cur) of
           None \<Rightarrow> t
         | Some par \<Rightarrow>
             if children par \<noteq> [] then
               (let all_selected = list_all (\<lambda>ch. selected (data ch)) (children par);
                    all_unselected = list_all (\<lambda>ch. \<not> selected (data ch)) (children par)
                in if all_selected \<or> all_unselected then
                     update_parent_selection
                       (if selected (data par) \<noteq> all_selected
                        then update_at t (butlast cur) (set_own_selected all_selected)
                        else t)
                       (butlast cur)
                   else t)
             else t))"
  by pat_completeness auto
termination
  by (relation "measure (\<lambda>(t, cur). length cur)") auto

declare update_parent_selection.simps [simp del]

definition action_select_all :: "app \<Rightarrow> app" where
  "action_select_all ap = ap\<lparr>file_tree := set_node_selected (file_tree ap) True\<rparr>"

definition action_select_none :: "app \<Rightarrow> app" where
  "action_select_none ap = ap\<lparr>file_tree := set_node_selected (file_tree ap) False\<rparr>"

text \<open>\<open>action_toggle\<close> and \<open>on_tree_node_selected\<close>, for the node the display points at.\<close>

definition action_toggle :: "app \<Rightarrow> nat list \<Rightarrow> app" where
  "action_toggle ap cur =
     (case node_at (file_tree ap) cur of
        None \<Rightarrow> ap
      | Some node \<Rightarrow>
          (let t1 = update_at (file_tree ap) cur
                      (\<lambda>n. set_node_selected n (\<not> selected (data node)))
           in ap\<lparr>file_tree := update_parent_selection t1 cur\<rparr>))"

section \<open>The filesystem\<close>

text \<open>
  A snapshot of the filesystem below \<open>ROOT\<close>: a file with its name and either the message of
  the error that opening or reading it raises or its bytes; a directory with its name and
  its entries in the order \<open>iterdir\<close> yields them; a directory whose listing raises. The
  snapshot is a finite tree (no link leads back into it). Its top node is the entry at
  \<open>ROOT\<close>; a path outside \<open>ROOT\<close> names nothing in it.
\<close>

datatype fs_node = FsFile str "str + bytes" | FsDir str "fs_node list" | FsDirDenied str

fun fs_name :: "fs_node \<Rightarrow> str" where
  "fs_name (FsFile n c) = n"
| "fs_name (FsDir n es) = n"
| "fs_name (FsDirDenied n) = n"

fun fs_is_dir :: "fs_node \<Rightarrow> bool" where
  "fs_is_dir (FsFile n c) = False"
| "fs_is_dir (FsDir n es) = True"
| "fs_is_dir (FsDirDenied n) = True"

fun fs_lookup :: "fs_node \<Rightarrow> str list \<Rightarrow> fs_node option" where
  "fs_lookup e [] = Some e"
| "fs_lookup (FsDir n es) (x # xs) =
     (case find (\<lambda>e. fs_name e = x) es of None \<Rightarrow> None | Some e \<Rightarrow> fs_lookup e xs)"
| "fs_lookup (FsFile n c) (x # xs) = None"
| "fs_lookup (FsDirDenied n) (x # xs) = None"

definition fs_at :: "config \<Rightarrow> fs_node \<Rightarrow> path \<Rightarrow> fs_node option" where
  "fs_at cfg fs p =
     (case relative_to p (ROOT cfg) of Inl e \<Rightarrow> None | Inr rel \<Rightarrow> fs_lookup fs rel)"

definition iterdir :: "config \<Rightarrow> fs_node \<Rightarrow> path \<Rightarrow> error + path list" where
  "iterdir cfg fs p =
     (case fs_at cfg fs p of
        Some (FsDir n es) \<Rightarrow> Inr (map (\<lambda>e. child p (fs_name e)) es)
      | _ \<Rightarrow> Inl OSError)"

definition path_is_dir :: "config \<Rightarrow> fs_node \<Rightarrow> path \<Rightarrow> bool" where
  "path_is_dir cfg fs p = (case fs_at cfg fs p of Some e \<Rightarrow> fs_is_dir e | None \<Rightarrow> False)"

section \<open>Building and refreshing the tree\<close>

text \<open>\<open>node.add(...)\<close> followed by \<open>self.node_index[child_path] = child\<close>.\<close>

definition add_child :: "app \<Rightarrow> nat list \<Rightarrow> path \<Rightarrow> bool \<Rightarrow> app" where
  "add_child ap node child_path isd =
     (case node_at (file_tree ap) node of
        None \<Rightarrow> ap
      | Some n \<Rightarrow>
          ap\<lparr>file_tree := update_at (file_tree ap) node
                (\<lambda>m. TreeNode (data m)
                   (children m @
                     [TreeNode \<lparr>path = child_path, selected = selected (data m), is_dir = isd\<rparr> []])),
             node_index := (node_index ap)(child_path \<mapsto> node @ [length (children n)])\<rparr>)"

text \<open>The loop of \<open>populate_children\<close>; \<open>should_skip\<close> is called outside the \<open>try\<close>, so its
  exception leaves the function.\<close>

fun populate_loop :: "config \<Rightarrow> fs_node \<Rightarrow> app \<Rightarrow> nat list \<Rightarrow> path list \<Rightarrow> error + app" where
  "populate_loop cfg fs ap node [] = Inr ap"
| "populate_loop cfg fs ap node (child_path # entries) =
     (case should_skip cfg child_path of
        Inl e \<Rightarrow> Inl e
      | Inr skip \<Rightarrow>
          if skip then populate_loop cfg fs ap node entries
          else populate_loop cfg fs
                 (add_child ap node child_path (path_is_dir cfg fs child_path)) node entries)"

definition populate_children :: "config \<Rightarrow> fs_node \<Rightarrow> app \<Rightarrow> nat list \<Rightarrow> path \<Rightarrow> error + app" where
  "populate_children cfg fs ap node p =
     (case iterdir cfg fs p of
        Inl e \<Rightarrow> Inr ap
      | Inr ps \<Rightarrow>
          populate_loop cfg fs ap node
            (sort_key (\<lambda>x. (\<not> path_is_dir cfg fs x, str_lower cfg (path_name x))) ps))"

definition compose :: "config \<Rightarrow> fs_node \<Rightarrow> app" where
  "compose cfg fs =
     \<lparr>file_tree = TreeNode \<lparr>path = ROOT cfg, selected = True, is_dir = path_is_dir cfg fs (ROOT cfg)\<rparr> [],
      node_index = [ROOT cfg \<mapsto> []]\<rparr>"

definition on_mount :: "config \<Rightarrow> fs_node \<Rightarrow> app \<Rightarrow> error + app" where
  "on_mount cfg fs ap = populate_children cfg fs ap [] (ROOT cfg)"

definition action_refresh :: "config \<Rightarrow> fs_node \<Rightarrow> app \<Rightarrow> error + app" where
  "action_refresh cfg fs ap =
     (let root_selected = selected (data (file_tree ap));
          cleared = \<lparr>file_tree = TreeNode ((data (file_tree ap))\<lparr>selected := root_selected\<rparr>) [],
                     node_index = [ROOT cfg \<mapsto> []]\<rparr>
      in populate_children cfg fs cleared [] (ROOT cfg))"

text \<open>Every path of the index lies at or below \<open>ROOT\<close>.\<close>

definition index_under_root :: "config \<Rightarrow> app \<Rightarrow> bool" where
  "index_under_root cfg ap \<longleftrightarrow>
     (\<forall>q a. node_index ap q = Some a \<longrightarrow> relative_to q (ROOT cfg) \<noteq> Inl ValueError)"

section \<open>Text helpers\<close>









section \<open>Decoding\<close>











section \<open>Rendering the tree\<close>










section \<open>Embedding the files\<close>




















section \<open>A concrete scenario\<close>

text \<open>
  The root \<open>/proj\<close> with the exclude pattern \<open>.git\<close>, holding \<open>src/a.go\<close>, \<open>src/b.bin\<close>, a
  file that cannot be read and a directory that cannot be listed; and a state of the tree in
  which \<open>src\<close> is loaded and deselected while its two children are selected.
\<close>

definition example_cfg :: config where
  "example_cfg =
     \<lparr>ROOT = \<lparr>anchor = u ''/'', names = [u ''proj'']\<rparr>, EXCLUDES = [u ''.git''],
      INCLUDE_HIDDEN = True, MAX_BYTES = 300000, READ_BINARY = False,
      ICON_SELECTED = [0x25C9], ICON_UNSELECTED = [0x25EF],
      str_lower = ascii_lower\<rparr>"

definition example_fs :: fs_node where
  "example_fs =
     FsDir (u ''proj'')
       [FsFile (u ''notes.txt'') (Inl (u ''[Errno 13] Permission denied'')),
        FsDir (u ''src'')
          [FsFile (u ''a.go'') (Inr [0x66, 0x6D, 0x74, 0x2E, 0x50, 0x72, 0x69, 0x6E, 0x74, 0x6C,
             0x6E, 0x28, 0x31, 0x29, 0x0A]),
           FsFile (u ''b.bin'') (Inr [0, 1, 2])],
        FsDirDenied (u ''locked'')]"

definition example_src :: path where
  "example_src = \<lparr>anchor = u ''/'', names = [u ''proj'', u ''src'']\<rparr>"

definition example_a_go :: path where
  "example_a_go = \<lparr>anchor = u ''/'', names = [u ''proj'', u ''src'', u ''a.go'']\<rparr>"

definition example_tree :: tree_node where
  "example_tree =
     TreeNode \<lparr>path = ROOT example_cfg, selected = True, is_dir = True\<rparr>
       [TreeNode \<lparr>path = example_src, selected = False, is_dir = True\<rparr>
          [TreeNode \<lparr>path = example_a_go, selected = True, is_dir = False\<rparr> [],
           TreeNode \<lparr>path = child example_src (u ''b.bin''), selected = True, is_dir = False\<rparr> []],
        TreeNode \<lparr>path = child (ROOT example_cfg) (u ''notes.txt''), selected = True,
          is_dir = False\<rparr> []]"

definition example_app :: app where
  "example_app =
     \<lparr>file_tree = example_tree,
      node_index = [ROOT example_cfg \<mapsto> [], example_src \<mapsto> [0], example_a_go \<mapsto> [0, 0],
        child example_src (u ''b.bin'') \<mapsto> [0, 1],
        child (ROOT example_cfg) (u ''notes.txt'') \<mapsto> [1]]\<rparr>"

section \<open>Theorems\<close>

subsection \<open>Path filter\<close>

lemma candidates_zero: "candidates ps 0 = [u ''.'']"
  by (simp add: candidates_def str_of_relative_def replace_char_def u_def)

lemma set_join: "set (join sep xs) \<subseteq> set sep \<union> \<Union> (set ` set xs)"
  by (induction sep xs rule: join.induct) auto

lemma join_nonempty: "xs \<noteq> [] \<Longrightarrow> [] \<notin> set xs \<Longrightarrow> join sep xs \<noteq> []"
  by (induction sep xs rule: join.induct) auto

lemma replace_char_id: "old \<notin> set s \<Longrightarrow> replace_char old new s = s"
  by (induction s) (auto simp: replace_char_def)

lemma candidates_pos:
  assumes "0 < i" "i \<le> length ps" "\<forall>n \<in> set ps. n \<noteq> [] \<and> 92 \<notin> set n"
  shows "filter (\<lambda>c. c \<noteq> []) (candidates ps i) = [last (take i ps), join (u ''/'') (take i ps)]"
proof -
  let ?sub = "take i ps"
  have ne: "?sub \<noteq> []" using assms by auto
  have sub: "set ?sub \<subseteq> set ps" by (rule set_take_subset)
  have emp: "[] \<notin> set ?sub" using assms(3) sub by auto
  have j: "join (u ''/'') ?sub \<noteq> []" using join_nonempty [OF ne emp] .
  have "92 \<notin> set (join (u ''/'') ?sub)"
  proof
    assume "92 \<in> set (join (u ''/'') ?sub)"
    then have "92 \<in> set (u ''/'') \<union> \<Union> (set ` set ?sub)"
      using set_join [of "u ''/''" ?sub] by blast
    then obtain n where "n \<in> set ?sub" "92 \<in> set n"
      by (auto simp: u_def)
    then show False using assms(3) sub by blast
  qed
  then have r: "replace_char 92 47 (join (u ''/'') ?sub) = join (u ''/'') ?sub"
    by (rule replace_char_id)
  have l: "last ?sub \<noteq> []" using emp ne last_in_set by metis
  show ?thesis
    using ne j r l by (simp add: candidates_def str_of_relative_def Let_def)
qed

lemma list_ex_upt_Suc:
  "list_ex P [0..<Suc n] = (P 0 \<or> list_ex P [1..<Suc n])"
  by (simp add: upt_rec [of 0] del: upt_Suc)

lemma is_hidden_spec:
  "u ''.'' \<notin> set (parts p) \<Longrightarrow> is_hidden p = spec_is_hidden p"
proof -
  assume "u ''.'' \<notin> set (parts p)"
  then have "filter (\<lambda>part. part \<noteq> u ''.'') (parts p) = parts p"
    by (intro filter_True) auto
  then show ?thesis
    by (simp add: is_hidden_def spec_is_hidden_def)
qed

lemma path_matches_excludes_char:
  assumes rel: "relative_to p (ROOT cfg) = Inr rel"
    and wf: "\<forall>n \<in> set rel. n \<noteq> [] \<and> 92 \<notin> set n"
  shows "path_matches_excludes cfg p =
     Inr (list_ex (fnmatchcase (u ''.'')) (EXCLUDES cfg) \<or> (p \<noteq> ROOT cfg \<and> spec_excluded cfg p))"
proof (cases "p = ROOT cfg")
  case True
  then show ?thesis
    by (simp add: path_matches_excludes_def candidates_zero u_def)
next
  case False
  have inner: "\<And>i. i \<in> set [1..<length rel + 1] \<Longrightarrow>
      list_ex (\<lambda>pat. list_ex (\<lambda>c. fnmatchcase c pat) (filter (\<lambda>c. c \<noteq> []) (candidates rel i))) (EXCLUDES cfg)
      = list_ex (\<lambda>pat. fnmatchcase (last (take i rel)) pat \<or> fnmatchcase (join (u ''/'') (take i rel)) pat) (EXCLUDES cfg)"
  proof -
    fix i assume "i \<in> set [1..<length rel + 1]"
    then have "0 < i" "i \<le> length rel" by auto
    from candidates_pos [OF this wf] show "list_ex (\<lambda>pat. list_ex (\<lambda>c. fnmatchcase c pat) (filter (\<lambda>c. c \<noteq> []) (candidates rel i))) (EXCLUDES cfg)
      = list_ex (\<lambda>pat. fnmatchcase (last (take i rel)) pat \<or> fnmatchcase (join (u ''/'') (take i rel)) pat) (EXCLUDES cfg)"
      by simp
  qed
  have rest: "list_ex (\<lambda>i. list_ex (\<lambda>pat. list_ex (\<lambda>c. fnmatchcase c pat)
        (filter (\<lambda>c. c \<noteq> []) (candidates rel i))) (EXCLUDES cfg)) [1..<length rel + 1]
      = spec_excluded cfg p"
    unfolding spec_excluded_def rel sum.case
    by (rule list_ex_cong [OF refl inner])
  have zero: "list_ex (\<lambda>pat. list_ex (\<lambda>c. fnmatchcase c pat)
        (filter (\<lambda>c. c \<noteq> []) (candidates rel 0))) (EXCLUDES cfg)
      = list_ex (fnmatchcase (u ''.'')) (EXCLUDES cfg)"
    by (simp add: candidates_zero u_def)
  show ?thesis
    using False rest zero
    by (simp add: path_matches_excludes_def rel list_ex_upt_Suc del: upt_Suc)
qed

text \<open>
  What \<open>should_skip\<close> computes, for a path below the root whose names are not empty, are not
  the dot and hold no backslash: the specification's predicate, or any pattern that matches
  the single dot printed for the empty prefix.
\<close>

lemma should_skip_characterisation:
  assumes rel: "relative_to p (ROOT cfg) = Inr rel"
    and dot: "u ''.'' \<notin> set (parts p)"
    and wf: "\<forall>n \<in> set rel. n \<noteq> [] \<and> 92 \<notin> set n"
  shows "should_skip cfg p =
     Inr (spec_should_skip cfg p \<or> (p \<noteq> ROOT cfg \<and> list_ex (fnmatchcase (u ''.'')) (EXCLUDES cfg)))"
  using path_matches_excludes_char [OF rel wf] is_hidden_spec [OF dot]
  by (auto simp: should_skip_def spec_should_skip_def)

text \<open>
  C1 (the code departs from the claim). With the single exclude pattern \<open>.*\<close>, the root
  \<open>/proj\<close> and hidden files included, the file \<open>/proj/readme.md\<close> is skipped although no
  component of it starts with a dot and neither \<open>readme.md\<close> as a segment nor as a subpath
  matches \<open>.*\<close>: at prefix length zero the empty relative path prints as a dot, which passes
  the guard \<open>if rel_posix\<close> and matches the pattern.
\<close>

theorem C1_should_skip_root_prefix:
  "should_skip
     \<lparr>ROOT = \<lparr>anchor = u ''/'', names = [u ''proj'']\<rparr>, EXCLUDES = [u ''.*''],
      INCLUDE_HIDDEN = True, MAX_BYTES = 300000, READ_BINARY = False,
      ICON_SELECTED = [0x25C9], ICON_UNSELECTED = [0x25EF],
      str_lower = ascii_lower\<rparr>
     \<lparr>anchor = u ''/'', names = [u ''proj'', u ''readme.md'']\<rparr> = Inr True
   \<and> \<not> spec_should_skip
     \<lparr>ROOT = \<lparr>anchor = u ''/'', names = [u ''proj'']\<rparr>, EXCLUDES = [u ''.*''],
      INCLUDE_HIDDEN = True, MAX_BYTES = 300000, READ_BINARY = False,
      ICON_SELECTED = [0x25C9], ICON_UNSELECTED = [0x25EF],
      str_lower = ascii_lower\<rparr>
     \<lparr>anchor = u ''/'', names = [u ''proj'', u ''readme.md'']\<rparr>"
  by (simp add: should_skip_def spec_should_skip_def path_matches_excludes_def relative_to_def
      candidates_def spec_excluded_def fnmatchcase_def u_def str_of_relative_def replace_char_def
      upt_rec)

text \<open>
  C9. At prefix length zero the only candidate is the single dot; so for every path below the
  root other than the root, a configured pattern that matches the dot makes
  \<open>path_matches_excludes\<close> and \<open>should_skip\<close> answer true, whatever the names are; the
  patterns \<open>*\<close> and \<open>?\<close> are such patterns.
\<close>

theorem C9_dot_candidate_excludes_all:
  "candidates rel 0 = [u ''.'']
   \<and> (relative_to p (ROOT cfg) = Inr rel \<and> p \<noteq> ROOT cfg
        \<and> list_ex (fnmatchcase (u ''.'')) (EXCLUDES cfg)
      \<longrightarrow> path_matches_excludes cfg p = Inr True \<and> should_skip cfg p = Inr True)
   \<and> fnmatchcase (u ''.'') (u ''*'') \<and> fnmatchcase (u ''.'') (u ''?'')"
proof -
  have z: "list_ex (\<lambda>pat. list_ex (\<lambda>c. fnmatchcase c pat)
        (filter (\<lambda>c. c \<noteq> []) (candidates rel 0))) (EXCLUDES cfg)
      = list_ex (fnmatchcase (u ''.'')) (EXCLUDES cfg)"
    by (simp add: candidates_zero u_def)
  have pme: "path_matches_excludes cfg p = Inr True"
    if "relative_to p (ROOT cfg) = Inr rel" "p \<noteq> ROOT cfg"
       "list_ex (fnmatchcase (u ''.'')) (EXCLUDES cfg)"
    using that z by (simp add: path_matches_excludes_def list_ex_upt_Suc del: upt_Suc)
  have ss: "should_skip cfg p = Inr True"
    if "relative_to p (ROOT cfg) = Inr rel" "p \<noteq> ROOT cfg"
       "list_ex (fnmatchcase (u ''.'')) (EXCLUDES cfg)"
    using pme [OF that] that(2) by (simp add: should_skip_def)
  have m: "fnmatchcase (u ''.'') (u ''*'')" "fnmatchcase (u ''.'') (u ''?'')"
    by (simp_all add: fnmatchcase_def u_def)
  show ?thesis using candidates_zero pme ss m by blast
qed

theorem C9_dot_candidate_excludes_all_witness:
  "relative_to \<lparr>anchor = u ''/'', names = [u ''proj'', u ''src'', u ''a.go'']\<rparr>
       \<lparr>anchor = u ''/'', names = [u ''proj'']\<rparr> = Inr [u ''src'', u ''a.go'']
   \<and> \<lparr>anchor = u ''/'', names = [u ''proj'', u ''src'', u ''a.go'']\<rparr>
       \<noteq> \<lparr>anchor = u ''/'', names = [u ''proj'']\<rparr>
   \<and> list_ex (fnmatchcase (u ''.'')) [u ''node_modules'', u ''?'']
   \<and> should_skip
       \<lparr>ROOT = \<lparr>anchor = u ''/'', names = [u ''proj'']\<rparr>, EXCLUDES = [u ''node_modules'', u ''?''],
        INCLUDE_HIDDEN = True, MAX_BYTES = 300000, READ_BINARY = False,
        ICON_SELECTED = [0x25C9], ICON_UNSELECTED = [0x25EF],
      str_lower = ascii_lower\<rparr>
       \<lparr>anchor = u ''/'', names = [u ''proj'', u ''src'', u ''a.go'']\<rparr> = Inr True"
proof -
  let ?root = "\<lparr>anchor = u ''/'', names = [u ''proj'']\<rparr>"
  let ?p = "\<lparr>anchor = u ''/'', names = [u ''proj'', u ''src'', u ''a.go'']\<rparr>"
  let ?cfg = "\<lparr>ROOT = ?root, EXCLUDES = [u ''node_modules'', u ''?''],
        INCLUDE_HIDDEN = True, MAX_BYTES = 300000, READ_BINARY = False,
        ICON_SELECTED = [0x25C9], ICON_UNSELECTED = [0x25EF],
      str_lower = ascii_lower\<rparr>"
  have h1: "relative_to ?p ?root = Inr [u ''src'', u ''a.go'']"
    by (simp add: relative_to_def u_def)
  have h2: "?p \<noteq> ?root" by simp
  have h3: "list_ex (fnmatchcase (u ''.'')) [u ''node_modules'', u ''?'']"
    by (simp add: fnmatchcase_def u_def)
  show ?thesis
    using C9_dot_candidate_excludes_all [of "[u ''src'', u ''a.go'']" ?p ?cfg] h1 h2 h3
    by simp
qed

subsection \<open>Selection\<close>

lemma node_at_set_node_selected:
  "node_at (set_node_selected t v) a = Some n \<Longrightarrow> selected (data n) = v"
proof (induction a arbitrary: t)
  case Nil
  then show ?case by (cases t) auto
next
  case (Cons i a)
  then show ?case by (cases t) (auto split: if_splits)
qed

lemma relative_to_Nil:
  assumes "relative_to p r = Inr []"
  shows "p = r"
proof -
  from assms have a: "anchor p = anchor r" and pre: "prefix (names r) (names p)"
    and d: "drop (length (names r)) (names p) = []"
    by (auto simp: relative_to_def split: if_splits)
  from pre d have "names p = names r"
    by (auto simp: prefix_def)
  with a show ?thesis by simp
qed

lemma relative_to_parent:
  assumes "relative_to p r = Inr (xs @ [x])"
  shows "relative_to (parent p) r = Inr xs" and "p \<noteq> r"
proof -
  from assms have a: "anchor p = anchor r" and pre: "prefix (names r) (names p)"
    and d: "drop (length (names r)) (names p) = xs @ [x]"
    by (auto simp: relative_to_def split: if_splits)
  from pre d have n: "names p = names r @ xs @ [x]"
    by (auto simp: prefix_def)
  then have "butlast (names p) = names r @ xs"
    by (simp add: butlast_append)
  then show "relative_to (parent p) r = Inr xs"
    using a by (simp add: relative_to_def parent_def)
  show "p \<noteq> r" using n by auto
qed

lemma walk_terminates:
  "relative_to p (ROOT cfg) = Inr rel \<Longrightarrow> \<exists>b. is_selected_effective cfg ap p = Some b"
proof (induction rel arbitrary: p rule: rev_induct)
  case Nil
  then have "p = ROOT cfg" by (rule relative_to_Nil)
  then show ?case
    by (subst is_selected_effective.simps) (auto split: option.splits)
next
  case (snoc x xs)
  from relative_to_parent [OF snoc.prems] snoc.IH
  obtain b where "is_selected_effective cfg ap (parent p) = Some b" and "p \<noteq> ROOT cfg"
    by blast
  then show ?case
    by (subst is_selected_effective.simps) (auto split: option.splits)
qed

lemma walk_result:
  assumes "node_index ap (ROOT cfg) = Some []"
  shows "relative_to p (ROOT cfg) = Inr rel \<Longrightarrow>
    \<exists>a n. node_at (file_tree ap) a = Some n
         \<and> is_selected_effective cfg ap p = Some (selected (data n))"
proof (induction rel arbitrary: p rule: rev_induct)
  case Nil
  then have p: "p = ROOT cfg" by (rule relative_to_Nil)
  have "find_node_by_path ap p = Some (file_tree ap)"
    using assms p by (simp add: find_node_by_path_def)
  then have "is_selected_effective cfg ap p = Some (selected (data (file_tree ap)))"
    by (subst is_selected_effective.simps) simp
  moreover have "node_at (file_tree ap) [] = Some (file_tree ap)" by simp
  ultimately show ?case by blast
next
  case (snoc x xs)
  note par = relative_to_parent [OF snoc.prems]
  show ?case
  proof (cases "find_node_by_path ap p")
    case None
    then have "is_selected_effective cfg ap p = is_selected_effective cfg ap (parent p)"
      using par(2) by (subst is_selected_effective.simps) simp
    then show ?thesis using snoc.IH [OF par(1)] by simp
  next
    case (Some node)
    then obtain a where "node_at (file_tree ap) a = Some node"
      by (auto simp: find_node_by_path_def split: option.splits)
    moreover have "is_selected_effective cfg ap p = Some (selected (data node))"
      using Some by (subst is_selected_effective.simps) simp
    ultimately show ?thesis by blast
  qed
qed

text \<open>
  C6. When the root is indexed (as it is from start-up on), then after \<open>action_select_all\<close>,
  that is \<open>set_node_selected\<close> at the root with \<open>True\<close>, the effective selection of every
  path at or below the root is \<open>True\<close>, whether the path has a node or not; after
  \<open>action_select_none\<close> it is \<open>False\<close>.
\<close>

theorem C6_select_all_none:
  "node_index ap (ROOT cfg) = Some [] \<and> relative_to p (ROOT cfg) = Inr rel
   \<longrightarrow> is_selected_effective cfg (action_select_all ap) p = Some True
     \<and> is_selected_effective cfg (action_select_none ap) p = Some False"
proof (intro impI, elim conjE)
  assume idx: "node_index ap (ROOT cfg) = Some []" and rel: "relative_to p (ROOT cfg) = Inr rel"
  have "is_selected_effective cfg (ap\<lparr>file_tree := set_node_selected (file_tree ap) v\<rparr>) p = Some v"
    for v
  proof -
    let ?ap = "ap\<lparr>file_tree := set_node_selected (file_tree ap) v\<rparr>"
    have "node_index ?ap (ROOT cfg) = Some []" using idx by simp
    from walk_result [OF this rel] obtain a n where
      "node_at (file_tree ?ap) a = Some n"
      "is_selected_effective cfg ?ap p = Some (selected (data n))"
      by blast
    then show ?thesis using node_at_set_node_selected [of "file_tree ap" v a n] by simp
  qed
  then show "is_selected_effective cfg (action_select_all ap) p = Some True
     \<and> is_selected_effective cfg (action_select_none ap) p = Some False"
    by (simp add: action_select_all_def action_select_none_def)
qed

lemma outside_parent:
  assumes "relative_to p r = Inl ValueError"
  shows "relative_to (parent p) r = Inl ValueError"
proof -
  have "prefix (names r) (butlast (names p)) \<Longrightarrow> prefix (names r) (names p)"
    using prefix_order.trans prefixeq_butlast by blast
  then show ?thesis
    using assms by (auto simp: relative_to_def parent_def split: if_splits)
qed

lemma walk_diverges:
  assumes idx: "\<And>q a. node_index ap q = Some a \<Longrightarrow> relative_to q (ROOT cfg) \<noteq> Inl ValueError"
    and out: "relative_to p (ROOT cfg) = Inl ValueError"
  shows "is_selected_effective cfg ap p = None"
proof (rule ccontr)
  assume "is_selected_effective cfg ap p \<noteq> None"
  then obtain y where y: "is_selected_effective cfg ap p = Some y" by auto
  have "\<not> (cfg = cfg \<and> ap = ap \<and> relative_to p (ROOT cfg) = Inl ValueError)"
  proof (rule is_selected_effective.raw_induct
      [where P = "\<lambda>c a q y. \<not> (c = cfg \<and> a = ap \<and> relative_to q (ROOT cfg) = Inl ValueError)",
        OF _ y])
    fix f c a q z
    assume IH: "\<And>c a q z. f c a q = Some z \<Longrightarrow>
        \<not> (c = cfg \<and> a = ap \<and> relative_to q (ROOT cfg) = Inl ValueError)"
      and eq: "(case find_node_by_path a q of
          None \<Rightarrow> if q = ROOT c then Some True else f c a (parent q)
        | Some node \<Rightarrow> Some (selected (data node))) = Some z"
    show "\<not> (c = cfg \<and> a = ap \<and> relative_to q (ROOT cfg) = Inl ValueError)"
    proof
      assume h: "c = cfg \<and> a = ap \<and> relative_to q (ROOT cfg) = Inl ValueError"
      then have "node_index ap q = None" using idx by (cases "node_index ap q") auto
      then have fn: "find_node_by_path ap q = None" by (simp add: find_node_by_path_def)
      have ne: "q \<noteq> ROOT cfg" using h by (auto simp: relative_to_def)
      from eq h fn ne have "f cfg ap (parent q) = Some z" by simp
      from IH [OF this] show False using outside_parent h by blast
    qed
  qed
  then show False using out by simp
qed

lemma update_at_id:
  "node_at t a = Some n \<Longrightarrow> f n = n \<Longrightarrow> update_at t a f = t"
proof (induction a arbitrary: t)
  case Nil
  then show ?case by simp
next
  case (Cons i a)
  then show ?case by (cases t) (auto split: if_splits simp: list_update_same_conv)
qed

lemma node_at_append:
  "node_at t (a @ b) = (case node_at t a of None \<Rightarrow> None | Some m \<Rightarrow> node_at m b)"
  by (induction a arbitrary: t) auto

lemma node_at_update_own:
  "node_at (update_at t b (set_own_selected v)) (b @ c) =
     (if c = [] then map_option (set_own_selected v) (node_at t b) else node_at t (b @ c))"
proof (induction b arbitrary: t)
  case Nil
  then show ?case by (cases c) (auto simp: set_own_selected_def)
next
  case (Cons i b)
  then show ?case by (cases t) (auto simp: nth_list_update)
qed

lemma update_parent_selection_below:
  "c \<noteq> [] \<Longrightarrow> node_at (update_parent_selection t a) (a @ c) = node_at t (a @ c)"
proof (induction t a arbitrary: c rule: update_parent_selection.induct)
  case (1 t cur)
  show ?case
  proof (cases "cur = []")
    case True
    then show ?thesis by (subst update_parent_selection.simps) simp
  next
    case False
    then have split: "cur @ c = butlast cur @ (last cur # c)" by simp
    show ?thesis
    proof (cases "node_at t (butlast cur)")
      case None
      then show ?thesis using False by (subst update_parent_selection.simps) simp
    next
      case (Some par)
      let ?as = "list_all (\<lambda>ch. selected (data ch)) (children par)"
      let ?au = "list_all (\<lambda>ch. \<not> selected (data ch)) (children par)"
      let ?t' = "if selected (data par) \<noteq> ?as
                 then update_at t (butlast cur) (set_own_selected ?as) else t"
      show ?thesis
      proof (cases "children par \<noteq> [] \<and> (?as \<or> ?au)")
        case True
        then have eq: "update_parent_selection t cur = update_parent_selection ?t' (butlast cur)"
          using False Some by (subst update_parent_selection.simps) (simp add: Let_def)
        have "node_at (update_parent_selection ?t' (butlast cur)) (butlast cur @ (last cur # c))
            = node_at ?t' (butlast cur @ (last cur # c))"
          using "1.IH" [OF False Some _ refl refl, of "last cur # c"] True by auto
        also have "\<dots> = node_at t (butlast cur @ (last cur # c))"
          using node_at_update_own [of t "butlast cur" ?as "last cur # c"] by simp
        finally have R: "node_at (update_parent_selection ?t' (butlast cur)) (butlast cur @ (last cur # c))
            = node_at t (butlast cur @ (last cur # c))" .
        show ?thesis unfolding eq split by (rule R)
      next
        case F2: False
        then have "update_parent_selection t cur = t"
          using False Some by (subst update_parent_selection.simps) (auto simp: Let_def)
        then show ?thesis by simp
      qed
    qed
  qed
qed

lemma update_parent_selection_self:
  "node_at (update_parent_selection t a) a = node_at t a"
proof (cases "a = []")
  case True
  then show ?thesis by (subst update_parent_selection.simps) simp
next
  case False
  show ?thesis
  proof (cases "node_at t (butlast a)")
    case None
    then show ?thesis using False by (subst update_parent_selection.simps) simp
  next
    case (Some par)
    let ?as = "list_all (\<lambda>ch. selected (data ch)) (children par)"
    let ?au = "list_all (\<lambda>ch. \<not> selected (data ch)) (children par)"
    let ?t' = "if selected (data par) \<noteq> ?as
               then update_at t (butlast a) (set_own_selected ?as) else t"
    show ?thesis
    proof (cases "children par \<noteq> [] \<and> (?as \<or> ?au)")
      case True
      then have eq: "update_parent_selection t a = update_parent_selection ?t' (butlast a)"
        using False Some by (subst update_parent_selection.simps) (simp add: Let_def)
      have "node_at (update_parent_selection ?t' (butlast a)) (butlast a @ [last a])
            = node_at ?t' (butlast a @ [last a])"
        by (rule update_parent_selection_below) simp
      also have "\<dots> = node_at t (butlast a @ [last a])"
        using node_at_update_own [of t "butlast a" ?as "[last a]"] by simp
      finally have R: "node_at (update_parent_selection ?t' (butlast a)) (butlast a @ [last a])
            = node_at t (butlast a @ [last a])" .
      have ap: "butlast a @ [last a] = a" using False by simp
      show ?thesis unfolding eq using R unfolding ap .
    next
      case F2: False
      then have "update_parent_selection t a = t"
        using False Some by (subst update_parent_selection.simps) (auto simp: Let_def)
      then show ?thesis by simp
    qed
  qed
qed

text \<open>
  C7. Let \<open>n\<close> be the node at address \<open>a\<close> and \<open>i\<close> one of its children. If every child of
  \<open>n\<close> has the selection value \<open>v\<close>, then \<open>update_parent_selection\<close> from that child is
  \<open>update_parent_selection\<close> from \<open>n\<close> in the tree where the flag of \<open>n\<close> is \<open>v\<close>, and in
  the result the flag of \<open>n\<close> is \<open>v\<close>. If the children are neither all selected nor all
  unselected, the tree is returned as it is.
\<close>

theorem C7_update_parent_selection:
  "node_at t a = Some n \<and> i < length (children n) \<longrightarrow>
     (list_all (\<lambda>ch. selected (data ch) = v) (children n) \<longrightarrow>
        update_parent_selection t (a @ [i])
          = update_parent_selection (update_at t a (set_own_selected v)) a
        \<and> map_option (\<lambda>m. selected (data m)) (node_at (update_parent_selection t (a @ [i])) a)
          = Some v)
   \<and> (\<not> list_all (\<lambda>ch. selected (data ch)) (children n)
        \<and> \<not> list_all (\<lambda>ch. \<not> selected (data ch)) (children n) \<longrightarrow>
        update_parent_selection t (a @ [i]) = t)"
proof (intro impI conjI; elim conjE)
  assume n: "node_at t a = Some n" and i: "i < length (children n)"
  let ?as = "list_all (\<lambda>ch. selected (data ch)) (children n)"
  let ?au = "list_all (\<lambda>ch. \<not> selected (data ch)) (children n)"
  have ne: "children n \<noteq> []" using i by auto
  {
    assume hom: "list_all (\<lambda>ch. selected (data ch) = v) (children n)"
    have as: "?as = v"
      using hom ne by (cases v; cases "children n") (auto simp: list_all_iff)
    have "?as \<or> ?au" using hom by (cases v) (auto simp: list_all_iff)
    then have step: "update_parent_selection t (a @ [i]) =
        update_parent_selection
          (if selected (data n) \<noteq> v then update_at t a (set_own_selected v) else t) a"
      using n ne as by (subst update_parent_selection.simps) (simp add: Let_def)
    have same: "selected (data n) = v \<Longrightarrow> update_at t a (set_own_selected v) = t"
      by (rule update_at_id [OF n]) (cases n, simp add: set_own_selected_def)
    show eq: "update_parent_selection t (a @ [i])
          = update_parent_selection (update_at t a (set_own_selected v)) a"
      using step same by auto
    have "node_at (update_parent_selection (update_at t a (set_own_selected v)) a) a
        = node_at (update_at t a (set_own_selected v)) a"
      by (rule update_parent_selection_self)
    also have "\<dots> = Some (set_own_selected v n)"
      using node_at_update_own [of t a v "[]"] n by simp
    finally show "map_option (\<lambda>m. selected (data m)) (node_at (update_parent_selection t (a @ [i])) a)
          = Some v"
      using eq by (simp add: set_own_selected_def)
  }
  {
    assume "\<not> ?as" "\<not> ?au"
    then show "update_parent_selection t (a @ [i]) = t"
      using n by (subst update_parent_selection.simps) (simp add: Let_def)
  }
qed

lemma should_skip_total:
  "relative_to p (ROOT cfg) = Inr rel \<Longrightarrow> \<exists>b. should_skip cfg p = Inr b"
  by (auto simp: should_skip_def path_matches_excludes_def)

lemma add_child_index:
  "q \<noteq> child_path \<Longrightarrow> node_index (add_child ap node child_path isd) q = node_index ap q"
  by (simp add: add_child_def split: option.splits)

lemma add_child_index_dom:
  "node_index (add_child ap node child_path isd) q = Some a \<Longrightarrow>
     q = child_path \<or> node_index ap q = Some a"
  by (auto simp: add_child_def split: option.splits if_splits)

lemma populate_loop_ok:
  assumes "\<forall>q \<in> set qs. q \<noteq> ROOT cfg \<and> relative_to q (ROOT cfg) \<noteq> Inl ValueError"
  shows "\<exists>ap'. populate_loop cfg fs ap node qs = Inr ap'
      \<and> node_index ap' (ROOT cfg) = node_index ap (ROOT cfg)
      \<and> (index_under_root cfg ap \<longrightarrow> index_under_root cfg ap')"
  using assms
proof (induction qs arbitrary: ap)
  case Nil
  then show ?case by simp
next
  case (Cons q qs)
  then have q: "q \<noteq> ROOT cfg" "relative_to q (ROOT cfg) \<noteq> Inl ValueError"
    and rest: "\<forall>q \<in> set qs. q \<noteq> ROOT cfg \<and> relative_to q (ROOT cfg) \<noteq> Inl ValueError"
    by auto
  from q(2) obtain rel where "relative_to q (ROOT cfg) = Inr rel"
    by (cases "relative_to q (ROOT cfg)") (auto simp: relative_to_def split: if_splits)
  from should_skip_total [OF this] obtain b where b: "should_skip cfg q = Inr b" by blast
  show ?case
  proof (cases b)
    case True
    then show ?thesis using b Cons.IH [OF rest, of ap] by simp
  next
    case False
    let ?ap = "add_child ap node q (path_is_dir cfg fs q)"
    have i: "node_index ?ap (ROOT cfg) = node_index ap (ROOT cfg)"
      using q(1) by (simp add: add_child_index)
    have u: "index_under_root cfg ap \<longrightarrow> index_under_root cfg ?ap"
      unfolding index_under_root_def using add_child_index_dom q(2) by blast
    from Cons.IH [OF rest, of ?ap] False b i u show ?thesis by auto
  qed
qed

lemma child_of_root:
  "child (ROOT cfg) n \<noteq> ROOT cfg" "ROOT cfg \<noteq> child (ROOT cfg) n"
  "relative_to (child (ROOT cfg) n) (ROOT cfg) \<noteq> Inl ValueError"
  by (auto simp: child_def relative_to_def dest: arg_cong [where f = names])

lemma populate_root_ok:
  "\<exists>ap'. populate_children cfg fs ap [] (ROOT cfg) = Inr ap'
      \<and> node_index ap' (ROOT cfg) = node_index ap (ROOT cfg)
      \<and> (index_under_root cfg ap \<longrightarrow> index_under_root cfg ap')"
proof (cases "iterdir cfg fs (ROOT cfg)")
  case (Inl e)
  then show ?thesis by (simp add: populate_children_def)
next
  case (Inr ps)
  then have "\<forall>q \<in> set ps. q \<noteq> ROOT cfg \<and> relative_to q (ROOT cfg) \<noteq> Inl ValueError"
    by (auto simp: iterdir_def child_of_root split: option.splits fs_node.splits)
  then have "\<forall>q \<in> set (sort_key (\<lambda>x. (\<not> path_is_dir cfg fs x, str_lower cfg (path_name x))) ps).
      q \<noteq> ROOT cfg \<and> relative_to q (ROOT cfg) \<noteq> Inl ValueError"
    by simp
  from populate_loop_ok [OF this] show ?thesis
    using Inr by (simp add: populate_children_def)
qed

lemma compose_index:
  "node_index (compose cfg fs) (ROOT cfg) = Some []" "index_under_root cfg (compose cfg fs)"
  by (auto simp: compose_def index_under_root_def relative_to_def split: if_splits)

lemma refresh_index:
  "\<exists>ap'. action_refresh cfg fs ap = Inr ap' \<and> node_index ap' (ROOT cfg) = Some []
     \<and> index_under_root cfg ap'"
proof -
  let ?c = "\<lparr>file_tree = TreeNode ((data (file_tree ap))\<lparr>selected := selected (data (file_tree ap))\<rparr>) [],
                     node_index = [ROOT cfg \<mapsto> []]\<rparr>"
  have "index_under_root cfg ?c"
    by (auto simp: index_under_root_def relative_to_def split: if_splits)
  moreover have "node_index ?c (ROOT cfg) = Some []" by simp
  ultimately show ?thesis
    using populate_root_ok [of cfg fs ?c] by (auto simp: action_refresh_def Let_def)
qed

lemma example_app_index:
  "node_index example_app (ROOT example_cfg) = Some []"
  by (simp add: example_app_def example_cfg_def example_src_def example_a_go_def child_def u_def)

theorem C6_select_all_none_witness:
  "node_index example_app (ROOT example_cfg) = Some []
   \<and> relative_to (child example_src (u ''b.bin'')) (ROOT example_cfg) = Inr [u ''src'', u ''b.bin'']
   \<and> is_selected_effective example_cfg (action_select_all example_app)
        (child example_src (u ''b.bin'')) = Some True
   \<and> is_selected_effective example_cfg (action_select_none example_app)
        (child example_src (u ''b.bin'')) = Some False"
proof -
  have r: "relative_to (child example_src (u ''b.bin'')) (ROOT example_cfg)
      = Inr [u ''src'', u ''b.bin'']"
    by (simp add: relative_to_def example_cfg_def example_src_def child_def)
  show ?thesis
    using C6_select_all_none [of example_app example_cfg "child example_src (u ''b.bin'')"
        "[u ''src'', u ''b.bin'']"] example_app_index r
    by simp
qed

theorem C7_update_parent_selection_witness:
  "node_at example_tree [0] = Some (the (node_at example_tree [0]))
   \<and> 1 < length (children (the (node_at example_tree [0])))
   \<and> list_all (\<lambda>ch. selected (data ch) = True) (children (the (node_at example_tree [0])))
   \<and> update_parent_selection example_tree ([0] @ [1])
       = update_parent_selection (update_at example_tree [0] (set_own_selected True)) [0]
   \<and> map_option (\<lambda>m. selected (data m))
         (node_at (update_parent_selection example_tree ([0] @ [1])) [0]) = Some True
   \<and> node_at example_tree [] = Some example_tree
   \<and> 0 < length (children example_tree)
   \<and> \<not> list_all (\<lambda>ch. selected (data ch)) (children example_tree)
   \<and> \<not> list_all (\<lambda>ch. \<not> selected (data ch)) (children example_tree)
   \<and> update_parent_selection example_tree ([] @ [0]) = example_tree"
proof -
  let ?n = "the (node_at example_tree [0])"
  have h1: "node_at example_tree [0] = Some ?n" "1 < length (children ?n)"
    "list_all (\<lambda>ch. selected (data ch) = True) (children ?n)"
    by (simp_all add: example_tree_def)
  have h2: "node_at example_tree [] = Some example_tree" "0 < length (children example_tree)"
    "\<not> list_all (\<lambda>ch. selected (data ch)) (children example_tree)"
    "\<not> list_all (\<lambda>ch. \<not> selected (data ch)) (children example_tree)"
    by (simp_all add: example_tree_def)
  from C7_update_parent_selection [of example_tree "[0]" ?n 1 True] h1
  have c1: "update_parent_selection example_tree ([0] @ [1])
       = update_parent_selection (update_at example_tree [0] (set_own_selected True)) [0]"
    "map_option (\<lambda>m. selected (data m))
         (node_at (update_parent_selection example_tree ([0] @ [1])) [0]) = Some True"
    by blast+
  from C7_update_parent_selection [of example_tree "[]" example_tree 0 True] h2
  have c2: "update_parent_selection example_tree ([] @ [0]) = example_tree"
    by blast
  show ?thesis using h1 h2 c1 c2 by blast
qed

text \<open>
  C10. For every path at or below the root the walk of \<open>is_selected_effective\<close> returns a
  boolean, and when the root is indexed the boolean is the flag of a node of the tree. The root
  is indexed after \<open>compose\<close> and after every \<open>action_refresh\<close>, which returns. For a path outside
  the root, in a state whose index holds only paths at or below the root (so that the path
  and its ancestors have no node), the walk does not return.
\<close>

theorem C10_effective_selection_terminates:
  "(relative_to p (ROOT cfg) = Inr rel \<longrightarrow>
      (\<exists>b. is_selected_effective cfg ap p = Some b)
      \<and> (node_index ap (ROOT cfg) = Some [] \<longrightarrow>
           (\<exists>a n. node_at (file_tree ap) a = Some n
              \<and> is_selected_effective cfg ap p = Some (selected (data n)))))
   \<and> node_index (compose cfg fs) (ROOT cfg) = Some []
   \<and> (\<exists>ap'. action_refresh cfg fs ap = Inr ap' \<and> node_index ap' (ROOT cfg) = Some [])
   \<and> (index_under_root cfg ap \<and> relative_to q (ROOT cfg) = Inl ValueError \<longrightarrow>
        is_selected_effective cfg ap q = None)"
proof -
  have a: "relative_to p (ROOT cfg) = Inr rel \<Longrightarrow> \<exists>b. is_selected_effective cfg ap p = Some b"
    by (rule walk_terminates)
  have b: "relative_to p (ROOT cfg) = Inr rel \<Longrightarrow> node_index ap (ROOT cfg) = Some [] \<Longrightarrow>
      \<exists>a n. node_at (file_tree ap) a = Some n
         \<and> is_selected_effective cfg ap p = Some (selected (data n))"
    using walk_result by blast
  have c: "\<exists>ap'. action_refresh cfg fs ap = Inr ap' \<and> node_index ap' (ROOT cfg) = Some []"
    using refresh_index by blast
  have d: "index_under_root cfg ap \<Longrightarrow> relative_to q (ROOT cfg) = Inl ValueError \<Longrightarrow>
      is_selected_effective cfg ap q = None"
    by (rule walk_diverges) (auto simp: index_under_root_def)
  show ?thesis using a b c d compose_index(1) by blast
qed

theorem C10_effective_selection_terminates_witness:
  "relative_to example_a_go (ROOT example_cfg) = Inr [u ''src'', u ''a.go'']
   \<and> (\<exists>b. is_selected_effective example_cfg (compose example_cfg example_fs) example_a_go = Some b)
   \<and> node_index (compose example_cfg example_fs) (ROOT example_cfg) = Some []
   \<and> index_under_root example_cfg (compose example_cfg example_fs)
   \<and> relative_to \<lparr>anchor = u ''/'', names = [u ''etc'', u ''passwd'']\<rparr> (ROOT example_cfg)
       = Inl ValueError
   \<and> is_selected_effective example_cfg (compose example_cfg example_fs)
       \<lparr>anchor = u ''/'', names = [u ''etc'', u ''passwd'']\<rparr> = None"
proof -
  have r: "relative_to example_a_go (ROOT example_cfg) = Inr [u ''src'', u ''a.go'']"
    by (simp add: relative_to_def example_cfg_def example_a_go_def)
  have o: "relative_to \<lparr>anchor = u ''/'', names = [u ''etc'', u ''passwd'']\<rparr> (ROOT example_cfg)
       = Inl ValueError"
    by (simp add: relative_to_def example_cfg_def u_def)
  show ?thesis
    using C10_effective_selection_terminates [of example_a_go example_cfg "[u ''src'', u ''a.go'']"
        "compose example_cfg example_fs" example_fs
        "\<lparr>anchor = u ''/'', names = [u ''etc'', u ''passwd'']\<rparr>"]
      r o compose_index [of example_cfg example_fs]
    by simp
qed

subsection \<open>Building the document\<close>
















subsection \<open>Binary detection\<close>

text \<open>
  C2 (as stated, refuted). The claim's allow-list omits the bell (7) and backspace (8)
  bytes that the source's \<open>text_chars\<close> holds: on the one-byte sample \<open>07\<close> the claim's
  classifier answers binary (one byte of one is outside its allow-list), the code answers
  text.
\<close>

theorem C2_counterexample:
  "\<not> detect_binary [7] \<and> spec_sniff [7]"
  by (simp add: detect_binary_def spec_sniff_def text_chars_def spec_allow_list_def)

text \<open>
  C2 (amended). A sample is classified binary if and only if it contains a null byte, or more
  than 30 percent of its bytes fall outside the allow-list of bell, backspace, tab, newline,
  form feed, carriage return, escape and the range 0x20 to 0xFF; a sample with a null byte is
  binary whatever the other bytes are.
\<close>

theorem C2_detect_binary_amended:
  "(detect_binary sample \<longleftrightarrow>
      (0 \<in> set sample \<or>
       10 * length (filter (\<lambda>b. \<not> (b \<in> {7, 8} \<or> spec_allow_list b)) sample)
         > 3 * length sample))
   \<and> (0 \<in> set sample \<longrightarrow> detect_binary sample)"
proof -
  have eq: "\<And>b. text_chars b \<longleftrightarrow> (b \<in> {7, 8} \<or> spec_allow_list b)"
    by (auto simp: text_chars_def spec_allow_list_def)
  show ?thesis
    by (simp add: detect_binary_def eq Let_def)
qed

theorem C2_detect_binary_amended_witness:
  "0 \<in> set [0x41, 0, 0x42, 0x43 :: 8 word] \<and> detect_binary [0x41, 0, 0x42, 0x43]"
  using C2_detect_binary_amended [of "[0x41, 0, 0x42, 0x43]"] by simp

end
